theory Spec2Isabelle
  imports Main
begin

section \<open>The NHD-0216K3Z driver (NHD_0216K3Z.py) as HOL functions\<close>

text \<open>
  The driver is one Python class. Its only state is the I2C address and the SMBus object
  it writes to; every method ends in calls of \<open>i2c_bus.write_byte(i2c_addr, byte)\<close>.
  The bus is modelled by the log of these calls, oldest first. A \<open>ValueError\<close> raised in
  the middle of a method leaves the bytes already written on the bus, so a method that can
  raise returns its result (or the error) together with the state reached.
  The bus itself is taken to accept every byte: failures of the transport are outside
  the class.
\<close>

subsection \<open>Characters, strings, errors and the device state\<close>

text \<open>A Python \<open>str\<close> is a sequence of Unicode code points; \<open>len\<close> counts code points.\<close>

type_synonym pychar = nat
type_synonym pystr = "pychar list"

text \<open>Every error the class raises is a \<open>ValueError\<close>; the constructors tell the messages apart.\<close>

datatype error =
    UnsupportedCharacter pychar
  | CodeOutOfRange
  | CursorOffScreen
  | ContrastOutOfRange
  | BrightnessOutOfRange
  | SlotOutOfRange
  | BitmapInvalid

record lcd =
  i2c_addr :: int
  bus_log :: "(int \<times> int) list"

type_synonym 'a action = "lcd \<Rightarrow> (error + 'a) \<times> lcd"

definition init :: "int \<Rightarrow> lcd" where
  "init addr = \<lparr>i2c_addr = addr, bus_log = []\<rparr>"

definition ret :: "'a \<Rightarrow> 'a action" where
  "ret x s = (Inr x, s)"

definition and_then :: "'a action \<Rightarrow> ('a \<Rightarrow> 'b action) \<Rightarrow> 'b action" where
  "and_then m f s = (case m s of (Inl e, s') \<Rightarrow> (Inl e, s') | (Inr x, s') \<Rightarrow> f x s')"

definition lift :: "(lcd \<Rightarrow> lcd) \<Rightarrow> unit action" where
  "lift f s = (Inr (), f s)"

text \<open>\<open>range(n)\<close>: the indices \<open>0, ..., n - 1\<close>, none when \<open>n \<le> 0\<close>.\<close>

definition py_range :: "int \<Rightarrow> nat list" where
  "py_range n = [0..<nat n]"

subsection \<open>The transport and the command frame\<close>

definition write_byte :: "int \<Rightarrow> int \<Rightarrow> lcd \<Rightarrow> lcd" where
  "write_byte addr byte s = s\<lparr>bus_log := bus_log s @ [(addr, byte)]\<rparr>"

definition send_cmd :: "int \<Rightarrow> int list \<Rightarrow> lcd \<Rightarrow> lcd" where
  "send_cmd cmd params s =
     (let s1 = write_byte (i2c_addr s) 0xFE s;
          s2 = write_byte (i2c_addr s1) cmd s1
      in foldl (\<lambda>t byte. write_byte (i2c_addr t) byte t) s2 params)"

subsection \<open>The character table\<close>

text \<open>
  The keys of \<open>special_chars\<close> as code points: \<open>'\0'\<close> to \<open>'\7'\<close> are 0 to 7, then
  U+00A5, U+2192, U+2190, U+00B0, U+03B1, U+00E4, U+00F1, U+00F6, U+03B2, U+0190, U+03BC,
  U+03C3, U+03C1, U+221A, U+00A2, U+03B8, U+221E, U+03A9, U+03A3, U+03C0, U+00F7, U+25A0,
  in the order of the source.
\<close>

definition special_chars :: "(pychar \<times> int) list" where
  "special_chars =
    [(0, 0x00), (1, 0x01), (2, 0x02), (3, 0x03), (4, 0x04), (5, 0x05), (6, 0x06), (7, 0x07),
     (0xA5, 0x5C), (0x2192, 0x7E), (0x2190, 0x7F), (0xB0, 0xDF), (0x3B1, 0xE0), (0xE4, 0xE1),
     (0xF1, 0xEE), (0xF6, 0xEF), (0x3B2, 0xE2), (0x190, 0xE3), (0x3BC, 0xE4), (0x3C3, 0xE5),
     (0x3C1, 0xE6), (0x221A, 0xE8), (0xA2, 0xEC), (0x3B8, 0xF2), (0x221E, 0xF3), (0x3A9, 0xF4),
     (0x3A3, 0xF6), (0x3C0, 0xF7), (0xF7, 0xFD), (0x25A0, 0xFF)]"

definition get_char_code :: "pychar \<Rightarrow> error + int" where
  "get_char_code char =
     (case map_of special_chars char of
        Some code \<Rightarrow> Inr code
      | None \<Rightarrow>
          (let ascii_code = int char
           in if ascii_code \<ge> 32 \<and> ascii_code \<le> 125 \<and> ascii_code \<noteq> 92
              then Inr ascii_code
              else Inl (UnsupportedCharacter char)))"

subsection \<open>Writing text\<close>

definition write_char_from_code :: "int \<Rightarrow> unit action" where
  "write_char_from_code code s =
     (if code < 0 \<or> code > 0xFF then (Inl CodeOutOfRange, s)
      else (Inr (), write_byte (i2c_addr s) code s))"

fun write_msg :: "pystr \<Rightarrow> unit action" where
  "write_msg [] s = (Inr (), s)"
| "write_msg (char # msg) s =
     (case get_char_code char of
        Inl e \<Rightarrow> (Inl e, s)
      | Inr char_code \<Rightarrow> write_msg msg (write_byte (i2c_addr s) char_code s))"

subsection \<open>Commands\<close>

definition display_on :: "lcd \<Rightarrow> lcd" where
  "display_on = send_cmd 0x41 []"

definition display_off :: "lcd \<Rightarrow> lcd" where
  "display_off = send_cmd 0x42 []"

definition set_cursor_pos :: "int \<Rightarrow> int \<Rightarrow> unit action" where
  "set_cursor_pos line column s =
     (if column < 1 \<or> column > 16 \<or> line < 1 \<or> line > 2 then (Inl CursorOffScreen, s)
      else (let pos = (line - 1) * 0x40 + (column - 1)
            in (Inr (), send_cmd 0x45 [pos] s)))"

definition home_cursor :: "lcd \<Rightarrow> lcd" where
  "home_cursor = send_cmd 0x46 []"

definition underline_cursor :: "bool \<Rightarrow> lcd \<Rightarrow> lcd" where
  "underline_cursor enabled = (if enabled then send_cmd 0x47 [] else send_cmd 0x48 [])"

definition shift_cursor_left :: "int \<Rightarrow> lcd \<Rightarrow> lcd" where
  "shift_cursor_left spaces s = foldl (\<lambda>t i. send_cmd 0x49 [] t) s (py_range spaces)"

definition shift_cursor_right :: "int \<Rightarrow> lcd \<Rightarrow> lcd" where
  "shift_cursor_right spaces s = foldl (\<lambda>t i. send_cmd 0x4A [] t) s (py_range spaces)"

definition blinking_cursor :: "bool \<Rightarrow> lcd \<Rightarrow> lcd" where
  "blinking_cursor enabled = (if enabled then send_cmd 0x4B [] else send_cmd 0x4C [])"

definition backspace :: "lcd \<Rightarrow> lcd" where
  "backspace = send_cmd 0x4E []"

definition clear_line :: "int \<Rightarrow> unit action" where
  "clear_line line =
     and_then (set_cursor_pos line 1) (\<lambda>_.
     and_then (write_msg (replicate 16 32)) (\<lambda>_.
     set_cursor_pos line 1))"

definition clear_screen :: "lcd \<Rightarrow> lcd" where
  "clear_screen = send_cmd 0x51 []"

definition set_contrast :: "int \<Rightarrow> unit action" where
  "set_contrast contrast s =
     (if contrast < 1 \<or> contrast > 50 then (Inl ContrastOutOfRange, s)
      else (Inr (), send_cmd 0x52 [contrast] s))"

definition set_backlight_brightness :: "int \<Rightarrow> unit action" where
  "set_backlight_brightness brightness s =
     (if brightness < 1 \<or> brightness > 8 then (Inl BrightnessOutOfRange, s)
      else (Inr (), send_cmd 0x53 [brightness] s))"

definition load_custom_character :: "int \<Rightarrow> int list \<Rightarrow> unit action" where
  "load_custom_character custom_char_slot bitmap s =
     (if custom_char_slot < 0 \<or> custom_char_slot > 7 then (Inl SlotOutOfRange, s)
      else if length bitmap \<noteq> 8 \<or> \<not> list_all (\<lambda>i. i < 0x1F \<and> i \<ge> 0) bitmap
      then (Inl BitmapInvalid, s)
      else (Inr (), send_cmd 0x54 (custom_char_slot # bitmap) s))"

definition shift_display_left :: "int \<Rightarrow> lcd \<Rightarrow> lcd" where
  "shift_display_left spaces s = foldl (\<lambda>t i. send_cmd 0x55 [] t) s (py_range spaces)"

definition shift_display_right :: "int \<Rightarrow> lcd \<Rightarrow> lcd" where
  "shift_display_right spaces s = foldl (\<lambda>t i. send_cmd 0x56 [] t) s (py_range spaces)"

definition change_rs232_baud_rate :: "int \<Rightarrow> lcd \<Rightarrow> lcd" where
  "change_rs232_baud_rate baud_rate = send_cmd 0x61 [baud_rate]"

definition change_i2c_address :: "int \<Rightarrow> lcd \<Rightarrow> lcd" where
  "change_i2c_address new_addr s = (send_cmd 0x62 [new_addr] s)\<lparr>i2c_addr := new_addr\<rparr>"

definition disp_firmware_version :: "lcd \<Rightarrow> lcd" where
  "disp_firmware_version = send_cmd 0x70 []"

definition disp_rs232_baud_rate :: "lcd \<Rightarrow> lcd" where
  "disp_rs232_baud_rate = send_cmd 0x71 []"

definition disp_i2c_address :: "lcd \<Rightarrow> lcd" where
  "disp_i2c_address = send_cmd 0x72 []"

subsection \<open>Layout\<close>

definition write_line :: "pystr \<Rightarrow> int \<Rightarrow> bool \<Rightarrow> bool action" where
  "write_line msg line centered =
     and_then (clear_line line) (\<lambda>_.
       (let len = int (length msg);
            start_col = (if centered then 1 + (16 - len) div 2 else 1)
        in and_then (set_cursor_pos line start_col) (\<lambda>_.
           and_then (write_msg msg) (\<lambda>_.
           ret (len \<le> 16)))))"

text \<open>
  \<open>str.split()\<close> of the Python library: the maximal runs of characters that are not
  whitespace, in order. Whitespace is what \<open>str.isspace\<close> accepts: U+0009 to U+000D,
  U+001C to U+0020, U+0085, U+00A0, U+1680, U+2000 to U+200A, U+2028, U+2029, U+202F,
  U+205F and U+3000.
\<close>

definition isspace :: "pychar \<Rightarrow> bool" where
  "isspace c \<longleftrightarrow>
     (9 \<le> c \<and> c \<le> 13) \<or> (28 \<le> c \<and> c \<le> 32) \<or> c = 0x85 \<or> c = 0xA0 \<or> c = 0x1680 \<or>
     (0x2000 \<le> c \<and> c \<le> 0x200A) \<or> c = 0x2028 \<or> c = 0x2029 \<or> c = 0x202F \<or>
     c = 0x205F \<or> c = 0x3000"

function py_split :: "pystr \<Rightarrow> pystr list" where
  "py_split [] = []"
| "py_split (c # cs) =
     (if isspace c then py_split cs
      else (c # takeWhile (\<lambda>x. \<not> isspace x) cs) # py_split (dropWhile (\<lambda>x. \<not> isspace x) cs))"
  by pat_completeness auto
termination
  by (relation "measure length") (auto simp: length_dropWhile_le le_imp_less_Suc)

text \<open>The loop over the words, with the running count \<open>i\<close>; it returns the last \<open>i\<close>.\<close>

fun disp_msg_words :: "pystr list \<Rightarrow> int \<Rightarrow> int action" where
  "disp_msg_words [] i = ret i"
| "disp_msg_words (word # words) i =
     and_then (if i \<noteq> 16 \<and> i \<noteq> 0 then write_msg [32] else ret ()) (\<lambda>_.
     and_then (if i + int (length word) > 16 then set_cursor_pos 2 1 else ret ()) (\<lambda>_.
     and_then (write_msg word) (\<lambda>_.
     disp_msg_words words (i + int (length word) + 1))))"

text \<open>The loop over the indices of the message.\<close>

fun disp_msg_chars :: "pystr \<Rightarrow> nat list \<Rightarrow> unit action" where
  "disp_msg_chars msg [] = ret ()"
| "disp_msg_chars msg (i # rest) =
     and_then (if i = 16 then set_cursor_pos 2 1 else ret ()) (\<lambda>_.
     and_then (write_msg [msg ! i]) (\<lambda>_.
     disp_msg_chars msg rest))"

definition disp_msg :: "pystr \<Rightarrow> bool \<Rightarrow> bool action" where
  "disp_msg msg preserve_words =
     and_then (lift clear_screen) (\<lambda>_.
     and_then (lift home_cursor) (\<lambda>_.
       if preserve_words
       then and_then (disp_msg_words (py_split msg) 0) (\<lambda>i. ret (i \<le> 33))
       else and_then (disp_msg_chars msg (py_range (int (length msg)))) (\<lambda>_.
            ret (int (length msg) \<le> 32))))"

definition disp_custom_chars :: "unit action" where
  "disp_custom_chars =
     and_then (write_line [0, 1, 2, 3, 4, 5, 6, 7] 1 False) (\<lambda>_.
     and_then (write_line [48, 49, 50, 51, 52, 53, 54, 55] 2 False) (\<lambda>_.
     ret ()))"

section \<open>What the driver puts on the bus\<close>

text \<open>
  The vocabulary of the statements below: \<open>sends bytes s\<close> is the state \<open>s\<close> after the
  bytes have been written, one \<open>write_byte\<close> each, to the address of \<open>s\<close>;
  a character is encodable when \<open>get_char_code\<close> returns a byte for it, and
  \<open>codes msg\<close> are the bytes of the encodable characters of \<open>msg\<close>, in order.
\<close>

definition sends :: "int list \<Rightarrow> lcd \<Rightarrow> lcd" where
  "sends bytes s = s\<lparr>bus_log := bus_log s @ map (Pair (i2c_addr s)) bytes\<rparr>"

definition encodable :: "pychar \<Rightarrow> bool" where
  "encodable c = (case get_char_code c of Inl _ \<Rightarrow> False | Inr _ \<Rightarrow> True)"

definition codes :: "pystr \<Rightarrow> int list" where
  "codes msg = concat (map (\<lambda>c. case get_char_code c of Inl _ \<Rightarrow> [] | Inr b \<Rightarrow> [b]) msg)"

text \<open>
  The word layout as the specification words it: from the running count \<open>i\<close>, a word is
  preceded by one space when \<open>i\<close> is neither 16 nor 0, then by the jump to line 2
  column 1 when \<open>i + len(word) > 16\<close>; the word follows whole, and the count grows by
  \<open>len(word) + 1\<close>.
\<close>

fun spec_word_layout :: "pystr list \<Rightarrow> int \<Rightarrow> int list" where
  "spec_word_layout [] i = []"
| "spec_word_layout (w # ws) i =
     (if i \<noteq> 16 \<and> i \<noteq> 0 then [32] else []) @
     (if i + int (length w) > 16 then [0xFE, 0x45, 0x40] else []) @
     codes w @ spec_word_layout ws (i + int (length w) + 1)"

definition spec_word_count :: "pystr list \<Rightarrow> int" where
  "spec_word_count ws = sum_list (map (\<lambda>w. int (length w) + 1) ws)"

text \<open>
  The bytes that the specification's character table publishes for the special symbols:
  0x5C, 0x7E, 0x7F, 0xDF, 0xE0 to 0xE6, 0xE8, 0xEC, 0xF2 to 0xF7, 0xFD and 0xFF.
\<close>

definition spec_published_bytes :: "int list" where
  "spec_published_bytes =
     [0x5C, 0x7E, 0x7F, 0xDF] @ [0xE0..0xE6] @ [0xE8, 0xEC] @ [0xF2..0xF7] @ [0xFD, 0xFF]"

section \<open>Lemmas about the transport, the encoder and the loops\<close>

lemma sends_Nil: "sends [] s = s"
  by (simp add: sends_def)

lemma i2c_addr_sends: "i2c_addr (sends bs s) = i2c_addr s"
  by (simp add: sends_def)

lemma sends_sends: "sends bs (sends as s) = sends (as @ bs) s"
  by (simp add: sends_def)

lemma write_byte_sends: "write_byte (i2c_addr s) b s = sends [b] s"
  by (simp add: write_byte_def sends_def)

lemma foldl_write_byte:
  "foldl (\<lambda>t byte. write_byte (i2c_addr t) byte t) s params = sends params s"
proof (induction params arbitrary: s)
  case Nil
  show ?case by (simp add: sends_Nil)
next
  case (Cons b params)
  show ?case
    by (simp only: foldl_Cons Cons.IH) (simp add: write_byte_def sends_def)
qed

lemma send_cmd_sends: "send_cmd cmd params s = sends (0xFE # cmd # params) s"
  by (simp only: send_cmd_def Let_def foldl_write_byte) (simp add: write_byte_def sends_def)

lemma codes_Nil: "codes [] = []"
  by (simp add: codes_def)

lemma codes_Cons: "get_char_code c = Inr b \<Longrightarrow> codes (c # cs) = b # codes cs"
  by (simp add: codes_def)

lemma codes_append: "codes (xs @ ys) = codes xs @ codes ys"
  by (simp add: codes_def)

lemma write_msg_encodable:
  "list_all encodable msg \<Longrightarrow> write_msg msg s = (Inr (), sends (codes msg) s)"
proof (induction msg arbitrary: s)
  case Nil
  show ?case by (simp add: codes_Nil sends_Nil)
next
  case (Cons c msg)
  from Cons.prems obtain b where b: "get_char_code c = Inr b"
    by (auto simp: encodable_def split: sum.splits)
  from Cons.prems have "list_all encodable msg" by simp
  then show ?case
    by (simp add: b Cons.IH codes_Cons [OF b] write_byte_sends sends_sends)
qed

lemma write_msg_unsupported:
  "list_all encodable pre \<Longrightarrow> \<not> encodable c \<Longrightarrow>
   write_msg (pre @ c # post) s = (Inl (UnsupportedCharacter c), sends (codes pre) s)"
proof (induction pre arbitrary: s)
  case Nil
  then have "get_char_code c = Inl (UnsupportedCharacter c)"
    by (auto simp: encodable_def get_char_code_def Let_def split: sum.splits option.splits if_splits)
  then show ?case by (simp add: codes_Nil sends_Nil)
next
  case (Cons a pre)
  from Cons.prems obtain b where b: "get_char_code a = Inr b"
    by (auto simp: encodable_def split: sum.splits)
  from Cons.prems have "list_all encodable pre" by simp
  with Cons.prems show ?case
    by (simp add: b Cons.IH codes_Cons [OF b] write_byte_sends sends_sends)
qed

lemma set_cursor_pos_ok:
  "1 \<le> line \<Longrightarrow> line \<le> 2 \<Longrightarrow> 1 \<le> column \<Longrightarrow> column \<le> 16 \<Longrightarrow>
   set_cursor_pos line column s = (Inr (), sends [0xFE, 0x45, (line - 1) * 0x40 + (column - 1)] s)"
  by (simp add: set_cursor_pos_def send_cmd_sends)

lemma set_cursor_pos_off:
  "column < 1 \<or> column > 16 \<or> line < 1 \<or> line > 2 \<Longrightarrow>
   set_cursor_pos line column s = (Inl CursorOffScreen, s)"
  by (simp add: set_cursor_pos_def)

lemma and_then_Inr: "m s = (Inr x, s') \<Longrightarrow> and_then m f s = f x s'"
  by (simp add: and_then_def)

lemma and_then_Inl: "m s = (Inl e, s') \<Longrightarrow> and_then m f s = (Inl e, s')"
  by (simp add: and_then_def)

lemma encodable_space: "encodable 32"
  by (simp add: encodable_def get_char_code_def special_chars_def)

lemma codes_space: "codes (replicate n 32) = replicate n 32"
  by (induction n) (simp_all add: codes_def get_char_code_def special_chars_def)

lemma clear_line_ok:
  assumes "1 \<le> line" "line \<le> 2"
  shows "clear_line line s =
    (Inr (), sends ([0xFE, 0x45, (line - 1) * 0x40] @ replicate 16 32 @ [0xFE, 0x45, (line - 1) * 0x40]) s)"
proof -
  have sp: "list_all encodable (replicate 16 32)"
    by (simp add: list_all_iff encodable_space)
  have a: "set_cursor_pos line 1 t = (Inr (), sends [0xFE, 0x45, (line - 1) * 0x40] t)" for t
    using set_cursor_pos_ok [OF assms, of 1 t] by simp
  have b: "write_msg (replicate 16 32) t = (Inr (), sends (replicate 16 32) t)" for t
    using write_msg_encodable [OF sp, of t] by (simp only: codes_space)
  show ?thesis
    unfolding clear_line_def
    by (simp only: and_then_Inr [OF a] and_then_Inr [OF b] a sends_sends append_assoc)
qed

lemma clear_line_off:
  "line < 1 \<or> line > 2 \<Longrightarrow> clear_line line s = (Inl CursorOffScreen, s)"
  unfolding clear_line_def
  by (rule and_then_Inl) (simp add: set_cursor_pos_def)

lemma write_space: "write_msg [32] s = (Inr (), sends [32] s)"
  using write_msg_encodable [of "[32]" s] codes_space [of 1]
  by (simp add: encodable_space)

lemma jump_line2: "set_cursor_pos 2 1 s = (Inr (), sends [0xFE, 0x45, 0x40] s)"
  using set_cursor_pos_ok [of 2 1 s] by simp

lemma maybe_space:
  "(if c then write_msg [32] else ret ()) s = (Inr (), sends (if c then [32] else []) s)"
  by (cases c) (simp_all only: if_True if_False write_space ret_def sends_Nil)

lemma maybe_jump:
  "(if c then set_cursor_pos 2 1 else ret ()) s =
   (Inr (), sends (if c then [0xFE, 0x45, 0x40] else []) s)"
  by (cases c) (simp_all only: if_True if_False jump_line2 ret_def sends_Nil)

lemma disp_msg_words_layout:
  "list_all (list_all encodable) ws \<Longrightarrow>
   disp_msg_words ws i s = (Inr (i + spec_word_count ws), sends (spec_word_layout ws i) s)"
proof (induction ws arbitrary: i s)
  case Nil
  show ?case by (simp add: ret_def spec_word_count_def sends_Nil)
next
  case (Cons w ws)
  from Cons.prems have w: "list_all encodable w" and ws: "list_all (list_all encodable) ws"
    by simp_all
  have count: "i + int (length w) + 1 + spec_word_count ws = i + spec_word_count (w # ws)"
    by (simp add: spec_word_count_def)
  show ?case
    apply (simp only: disp_msg_words.simps)
    apply (simp only: and_then_Inr [OF maybe_space] and_then_Inr [OF maybe_jump]
        and_then_Inr [OF write_msg_encodable [OF w]] Cons.IH [OF ws] sends_sends count)
    apply (simp only: spec_word_layout.simps append_assoc)
    done
qed

lemma disp_msg_chars_indices:
  "\<forall>i\<in>set idx. encodable (msg ! i) \<Longrightarrow>
   disp_msg_chars msg idx s =
     (Inr (), sends (concat (map (\<lambda>i. (if i = 16 then [0xFE, 0x45, 0x40] else []) @ codes [msg ! i]) idx)) s)"
proof (induction idx arbitrary: s)
  case Nil
  show ?case by (simp add: ret_def sends_Nil)
next
  case (Cons i idx)
  from Cons.prems have i: "list_all encodable [msg ! i]" and rest: "\<forall>j\<in>set idx. encodable (msg ! j)"
    by simp_all
  show ?case
    apply (simp only: disp_msg_chars.simps)
    apply (simp only: and_then_Inr [OF maybe_jump] and_then_Inr [OF write_msg_encodable [OF i]]
        Cons.IH [OF rest] sends_sends)
    apply simp
    done
qed

lemma map_nth_drop: "k \<le> length xs \<Longrightarrow> map ((!) xs) [k..<length xs] = drop k xs"
  by (rule nth_equalityI) simp_all

lemma map_nth_take: "k \<le> length xs \<Longrightarrow> map ((!) xs) [0..<k] = take k xs"
  by (rule nth_equalityI) simp_all

lemma codes_map_nth: "concat (map (\<lambda>i. codes [xs ! i]) idx) = codes (map ((!) xs) idx)"
  by (simp add: codes_def comp_def)

lemma chars_layout_short:
  assumes "length msg \<le> 16"
  shows "concat (map (\<lambda>i. (if i = 16 then [0xFE, 0x45, 0x40] else []) @ codes [msg ! i]) [0..<length msg])
         = codes msg"
proof -
  have "map (\<lambda>i. (if i = 16 then [0xFE, 0x45, 0x40] else []) @ codes [msg ! i]) [0..<length msg]
        = map (\<lambda>i. codes [msg ! i]) [0..<length msg]"
    using assms by (intro map_cong) auto
  then show ?thesis
    by (simp only: codes_map_nth map_nth)
qed

lemma chars_layout_long:
  assumes "16 < length msg"
  shows "concat (map (\<lambda>i. (if i = 16 then [0xFE, 0x45, 0x40] else []) @ codes [msg ! i]) [0..<length msg])
         = codes (take 16 msg) @ [0xFE, 0x45, 0x40] @ codes (drop 16 msg)"
proof -
  let ?F = "\<lambda>i. (if i = 16 then [0xFE, 0x45, 0x40] else []) @ codes [msg ! i]"
  have split: "[0..<length msg] = [0..<16] @ 16 # [17..<length msg]"
  proof -
    have "[0..<length msg] = [0..<16] @ [16..<length msg]"
      using assms upt_add_eq_append [of 0 16 "length msg - 16"] by simp
    also have "[16..<length msg] = 16 # [17..<length msg]"
      using assms by (simp add: upt_conv_Cons)
    finally show ?thesis .
  qed
  have a: "map ?F [0..<16] = map (\<lambda>i. codes [msg ! i]) [0..<16]"
    by (intro map_cong) auto
  have b: "map ?F [17..<length msg] = map (\<lambda>i. codes [msg ! i]) [17..<length msg]"
    by (intro map_cong) auto
  have c: "concat (map ?F [0..<16]) = codes (take 16 msg)"
    using assms by (simp only: a codes_map_nth) (simp add: map_nth_take)
  have d: "concat (map ?F [17..<length msg]) = codes (drop 17 msg)"
    using assms by (simp only: b codes_map_nth) (simp add: map_nth_drop)
  have e: "codes [msg ! 16] @ codes (drop 17 msg) = codes (drop 16 msg)"
    using assms Cons_nth_drop_Suc [of 16 msg] codes_append [of "[msg ! 16]" "drop 17 msg"]
    by simp
  have "concat (map ?F [0..<length msg])
        = concat (map ?F [0..<16]) @ ?F 16 @ concat (map ?F [17..<length msg])"
    by (simp only: split map_append concat_append list.map concat.simps)
  also have "\<dots> = codes (take 16 msg) @ [0xFE, 0x45, 0x40] @ codes [msg ! 16] @ codes (drop 17 msg)"
    by (simp only: c d) simp
  finally show ?thesis by (simp only: e)
qed

lemma filter_takeWhile_same: "filter P (takeWhile P xs) = takeWhile P xs"
  by (induction xs) simp_all

lemma takeWhile_filter_dropWhile: "takeWhile P xs @ filter P (dropWhile P xs) = filter P xs"
  by (induction xs) simp_all

lemma concat_py_split: "concat (py_split m) = filter (\<lambda>c. \<not> isspace c) m"
  by (induction m rule: py_split.induct) (simp_all add: takeWhile_filter_dropWhile)

lemma py_split_nonempty: "[] \<notin> set (py_split m)"
  by (induction m rule: py_split.induct) simp_all

lemma py_split_leading: "list_all isspace sp \<Longrightarrow> py_split (sp @ m) = py_split m"
  by (induction sp) simp_all

lemma py_split_word:
  assumes w: "w \<noteq> []" "list_all (\<lambda>c. \<not> isspace c) w"
    and sp: "list_all isspace sp" "sp \<noteq> [] \<or> m = []"
  shows "py_split (w @ sp @ m) = w # py_split m"
proof -
  from w obtain c w' where cw: "w = c # w'" "\<not> isspace c" "list_all (\<lambda>c. \<not> isspace c) w'"
    by (cases w) auto
  have all: "\<forall>x\<in>set w'. \<not> isspace x"
    using cw(3) by (simp add: list_all_iff)
  show ?thesis
  proof (cases sp)
    case Nil
    with sp have m: "m = []" by simp
    have tw: "takeWhile (\<lambda>x. \<not> isspace x) w' = w'"
      and dw: "dropWhile (\<lambda>x. \<not> isspace x) w' = []"
      using all by simp_all
    show ?thesis by (simp add: Nil cw(1,2) m tw dw)
  next
    case (Cons x sp')
    with sp have x: "isspace x" by simp
    have t: "takeWhile (\<lambda>x. \<not> isspace x) (w' @ x # sp' @ m) = w'"
      using x all by (simp add: takeWhile_tail)
    have d: "dropWhile (\<lambda>x. \<not> isspace x) (w' @ x # sp' @ m) = sp @ m"
      using x all Cons by (simp add: dropWhile_append3)
    show ?thesis
      using cw t d py_split_leading [OF sp(1), of m] Cons by simp
  qed
qed

lemma load_custom_character_accepts:
  "load_custom_character slot bitmap s =
     (if slot < 0 \<or> slot > 7 then (Inl SlotOutOfRange, s)
      else if length bitmap = 8 \<and> list_all (\<lambda>row. 0 \<le> row \<and> row \<le> 30) bitmap
      then (Inr (), sends (0xFE # 0x54 # slot # bitmap) s)
      else (Inl BitmapInvalid, s))"
proof -
  have "(\<lambda>i::int. i < 0x1F \<and> i \<ge> 0) = (\<lambda>row. 0 \<le> row \<and> row \<le> 30)"
    by auto
  then show ?thesis
    by (simp add: load_custom_character_def send_cmd_sends)
qed

lemma special_keys:
  "fst ` set special_chars =
     {0, 1, 2, 3, 4, 5, 6, 7, 0xA5, 0x2192, 0x2190, 0xB0, 0x3B1, 0xE4, 0xF1, 0xF6, 0x3B2, 0x190,
      0x3BC, 0x3C3, 0x3C1, 0x221A, 0xA2, 0x3B8, 0x221E, 0x3A9, 0x3A3, 0x3C0, 0xF7, 0x25A0}"
  by (simp add: special_chars_def)

lemma get_char_code_special:
  "c \<in> fst ` set special_chars \<Longrightarrow> \<exists>b. get_char_code c = Inr b"
proof -
  assume "c \<in> fst ` set special_chars"
  then have "map_of special_chars c \<noteq> None"
    by (simp add: map_of_eq_None_iff)
  then show ?thesis
    by (auto simp: get_char_code_def)
qed

lemma get_char_code_other:
  assumes "c \<notin> fst ` set special_chars"
  shows "get_char_code c =
    (if 32 \<le> c \<and> c \<le> 125 \<and> c \<noteq> 92 then Inr (int c) else Inl (UnsupportedCharacter c))"
proof -
  from assms have "map_of special_chars c = None"
    by (simp add: map_of_eq_None_iff)
  then show ?thesis
    by (simp add: get_char_code_def Let_def)
qed

lemma ascii_not_special: "32 \<le> c \<Longrightarrow> c \<le> 125 \<Longrightarrow> c \<notin> fst ` set special_chars"
  by (simp add: special_keys)

lemma slot_special: "c \<le> 7 \<Longrightarrow> c \<in> fst ` set special_chars"
proof -
  assume "c \<le> 7"
  then have "c = 0 \<or> c = 1 \<or> c = 2 \<or> c = 3 \<or> c = 4 \<or> c = 5 \<or> c = 6 \<or> c = 7"
    by arith
  then show ?thesis
    unfolding special_keys by blast
qed

lemma foldl_send_cmd:
  "foldl (\<lambda>t i. send_cmd cmd [] t) s idx = sends (concat (replicate (length idx) [0xFE, cmd])) s"
proof (induction idx arbitrary: s)
  case Nil
  show ?case by (simp add: sends_Nil)
next
  case (Cons i idx)
  show ?case
    by (simp only: foldl_Cons Cons.IH) (simp add: send_cmd_sends sends_sends)
qed

lemma length_py_range: "length (py_range n) = nat n"
  by (simp add: py_range_def)

lemma shift_sends:
  "shift_cursor_left n s = sends (concat (replicate (nat n) [0xFE, 0x49])) s"
  "shift_cursor_right n s = sends (concat (replicate (nat n) [0xFE, 0x4A])) s"
  "shift_display_left n s = sends (concat (replicate (nat n) [0xFE, 0x55])) s"
  "shift_display_right n s = sends (concat (replicate (nat n) [0xFE, 0x56])) s"
  by (simp_all only: shift_cursor_left_def shift_cursor_right_def shift_display_left_def
      shift_display_right_def foldl_send_cmd length_py_range)

lemma command_frames:
  "display_on s = sends [0xFE, 0x41] s"
  "display_off s = sends [0xFE, 0x42] s"
  "home_cursor s = sends [0xFE, 0x46] s"
  "underline_cursor enabled s = sends [0xFE, if enabled then 0x47 else 0x48] s"
  "blinking_cursor enabled s = sends [0xFE, if enabled then 0x4B else 0x4C] s"
  "backspace s = sends [0xFE, 0x4E] s"
  "clear_screen s = sends [0xFE, 0x51] s"
  "change_rs232_baud_rate baud_rate s = sends [0xFE, 0x61, baud_rate] s"
  "change_i2c_address new_addr s = (sends [0xFE, 0x62, new_addr] s)\<lparr>i2c_addr := new_addr\<rparr>"
  "disp_firmware_version s = sends [0xFE, 0x70] s"
  "disp_rs232_baud_rate s = sends [0xFE, 0x71] s"
  "disp_i2c_address s = sends [0xFE, 0x72] s"
  by (simp_all add: display_on_def display_off_def home_cursor_def underline_cursor_def
      blinking_cursor_def backspace_def clear_screen_def change_rs232_baud_rate_def
      change_i2c_address_def disp_firmware_version_def disp_rs232_baud_rate_def
      disp_i2c_address_def send_cmd_sends)

lemma lift_and_then: "and_then (lift f) g s = g () (f s)"
  by (simp add: and_then_def lift_def)

lemma disp_msg_unfold:
  "disp_msg msg preserve_words s =
     (if preserve_words
      then and_then (disp_msg_words (py_split msg) 0) (\<lambda>i. ret (i \<le> 33))
             (sends [0xFE, 0x51, 0xFE, 0x46] s)
      else and_then (disp_msg_chars msg (py_range (int (length msg))))
             (\<lambda>_. ret (int (length msg) \<le> 32)) (sends [0xFE, 0x51, 0xFE, 0x46] s))"
  by (simp add: disp_msg_def lift_and_then clear_screen_def home_cursor_def send_cmd_sends
      sends_sends)

lemma codes_length: "list_all encodable msg \<Longrightarrow> length (codes msg) = length msg"
proof (induction msg)
  case Nil
  show ?case by (simp add: codes_Nil)
next
  case (Cons c msg)
  from Cons.prems obtain b where b: "get_char_code c = Inr b"
    by (auto simp: encodable_def split: sum.splits)
  from Cons show ?case by (simp add: codes_Cons [OF b])
qed

lemma disp_msg_words_mode_aux:
  assumes "list_all (list_all encodable) (py_split msg)"
  shows "disp_msg msg True s =
     (Inr (spec_word_count (py_split msg) \<le> 33),
      sends ([0xFE, 0x51, 0xFE, 0x46] @ spec_word_layout (py_split msg) 0) s)"
  by (simp add: disp_msg_unfold and_then_Inr [OF disp_msg_words_layout [OF assms]] ret_def
      sends_sends)

lemma disp_msg_chars_mode_aux:
  assumes "list_all encodable msg"
  shows "disp_msg msg False s =
     (Inr (length msg \<le> 32),
      sends ([0xFE, 0x51, 0xFE, 0x46] @ codes (take 16 msg) @
             (if length msg > 16 then [0xFE, 0x45, 0x40] @ codes (drop 16 msg) else [])) s)"
proof -
  have enc: "\<forall>i\<in>set (py_range (int (length msg))). encodable (msg ! i)"
    using assms by (simp add: py_range_def list_all_length)
  have idx: "py_range (int (length msg)) = [0..<length msg]"
    by (simp add: py_range_def)
  have lay: "concat (map (\<lambda>i. (if i = 16 then [0xFE, 0x45, 0x40] else []) @ codes [msg ! i])
               [0..<length msg])
       = codes (take 16 msg) @
         (if length msg > 16 then [0xFE, 0x45, 0x40] @ codes (drop 16 msg) else [])"
  proof (cases "length msg > 16")
    case True
    then show ?thesis by (simp only: chars_layout_long if_True)
  next
    case False
    then show ?thesis by (simp add: chars_layout_short)
  qed
  have loop: "disp_msg_chars msg (py_range (int (length msg))) t =
      (Inr (), sends (codes (take 16 msg) @
         (if length msg > 16 then [0xFE, 0x45, 0x40] @ codes (drop 16 msg) else [])) t)" for t
    using disp_msg_chars_indices [OF enc, of t] by (simp only: idx lay)
  show ?thesis
    by (simp add: disp_msg_unfold and_then_Inr [OF loop] ret_def sends_sends)
qed

lemma write_line_ok:
  assumes "1 \<le> line" "line \<le> 2" "list_all encodable msg" "\<not> centered \<or> length msg \<le> 16"
  shows "write_line msg line centered s =
     (Inr (length msg \<le> 16),
      sends ([0xFE, 0x45, (line - 1) * 0x40] @ replicate 16 32 @ [0xFE, 0x45, (line - 1) * 0x40] @
             [0xFE, 0x45, (line - 1) * 0x40 +
                ((if centered then 1 + (16 - int (length msg)) div 2 else 1) - 1)] @
             codes msg) s)"
proof -
  let ?col = "if centered then 1 + (16 - int (length msg)) div 2 else 1"
  have col: "1 \<le> ?col" "?col \<le> 16"
    using assms(4) by auto
  show ?thesis
    unfolding write_line_def Let_def
    by (simp only: and_then_Inr [OF clear_line_ok [OF assms(1,2)]]
        and_then_Inr [OF set_cursor_pos_ok [OF assms(1,2) col]]
        and_then_Inr [OF write_msg_encodable [OF assms(3)]] ret_def sends_sends)
      simp
qed

lemma write_line_centered_long:
  assumes "1 \<le> line" "line \<le> 2" "length msg > 16"
  shows "write_line msg line True s =
     (Inl CursorOffScreen,
      sends ([0xFE, 0x45, (line - 1) * 0x40] @ replicate 16 32 @ [0xFE, 0x45, (line - 1) * 0x40]) s)"
proof -
  have col: "1 + (16 - int (length msg)) div 2 < 1"
    using assms(3) by simp
  have off: "set_cursor_pos line (1 + (16 - int (length msg)) div 2) t = (Inl CursorOffScreen, t)" for t
    using col by (intro set_cursor_pos_off) simp
  show ?thesis
    unfolding write_line_def Let_def
    by (simp only: and_then_Inr [OF clear_line_ok [OF assms(1,2)]] if_True
        and_then_Inl [OF off])
qed

lemma write_line_bad_line:
  "line < 1 \<or> line > 2 \<Longrightarrow> write_line msg line centered s = (Inl CursorOffScreen, s)"
  unfolding write_line_def
  by (rule and_then_Inl) (rule clear_line_off)

lemma codes_replicate: "get_char_code c = Inr b \<Longrightarrow> codes (replicate n c) = replicate n b"
  by (induction n) (simp_all add: codes_Nil codes_Cons)

lemma get_char_code_not_escape: "get_char_code c = Inr b \<Longrightarrow> b \<noteq> 0xFE"
proof (cases "map_of special_chars c")
  case None
  assume "get_char_code c = Inr b"
  with None show ?thesis
    by (auto simp: get_char_code_def Let_def split: if_splits)
next
  case (Some v)
  assume "get_char_code c = Inr b"
  with Some have "b = v" by (simp add: get_char_code_def)
  moreover from Some have "(c, v) \<in> set special_chars" by (rule map_of_SomeD)
  ultimately show ?thesis by (auto simp: special_chars_def)
qed

lemma codes_not_escape: "0xFE \<notin> set (codes msg)"
proof (induction msg)
  case Nil
  show ?case by (simp add: codes_Nil)
next
  case (Cons c msg)
  show ?case
  proof (cases "get_char_code c")
    case (Inl e)
    with Cons show ?thesis by (simp add: codes_def)
  next
    case (Inr b)
    with Cons get_char_code_not_escape [OF Inr] show ?thesis
      by (simp add: codes_Cons [OF Inr])
  qed
qed

lemma spec_word_count_Cons: "spec_word_count (w # ws) = int (length w) + 1 + spec_word_count ws"
  by (simp add: spec_word_count_def)

lemma spec_word_count_nonneg: "0 \<le> spec_word_count ws"
  by (induction ws) (simp_all add: spec_word_count_def)

lemma spec_word_count_pos: "ws \<noteq> [] \<Longrightarrow> 1 \<le> spec_word_count ws"
  using spec_word_count_nonneg by (cases ws) (simp_all add: spec_word_count_Cons)

lemma spec_word_layout_append:
  "spec_word_layout (ws @ vs) i = spec_word_layout ws i @ spec_word_layout vs (i + spec_word_count ws)"
proof (induction ws arbitrary: i)
  case Nil
  show ?case by (simp add: spec_word_count_def)
next
  case (Cons w ws)
  show ?case by (simp add: Cons.IH spec_word_count_Cons add.assoc)
qed

lemma spec_word_layout_line1:
  "0 \<le> i \<Longrightarrow> ws \<noteq> [] \<Longrightarrow> list_all (list_all encodable) ws \<Longrightarrow>
   i + spec_word_count ws \<le> 17 \<Longrightarrow>
   0xFE \<notin> set (spec_word_layout ws i) \<and>
   int (length (spec_word_layout ws i)) \<le> spec_word_count ws - (if i = 0 then 1 else 0)"
proof (induction ws arbitrary: i)
  case Nil
  then show ?case by simp
next
  case (Cons w ws)
  from Cons.prems have w: "list_all encodable w" and ws: "list_all (list_all encodable) ws"
    by simp_all
  have len: "length (codes w) = length w" using w by (rule codes_length)
  have esc: "0xFE \<notin> set (codes w)" by (rule codes_not_escape)
  show ?case
  proof (cases "ws = []")
    case True
    with Cons.prems len esc show ?thesis
      by (simp add: spec_word_count_def)
  next
    case False
    have pos: "1 \<le> spec_word_count ws" using False by (rule spec_word_count_pos)
    have i': "0 \<le> i + int (length w) + 1" using Cons.prems(1) by simp
    have bound: "i + int (length w) + 1 + spec_word_count ws \<le> 17"
      using Cons.prems(4) by (simp add: spec_word_count_Cons)
    from Cons.IH [OF i' False ws bound]
    have ih: "0xFE \<notin> set (spec_word_layout ws (i + int (length w) + 1))"
      "int (length (spec_word_layout ws (i + int (length w) + 1))) \<le> spec_word_count ws"
      using Cons.prems(1) by (simp_all split: if_splits)
    from pos bound have nojump: "\<not> i + int (length w) > 16" by simp
    have eq: "spec_word_layout (w # ws) i =
        (if i \<noteq> 16 \<and> i \<noteq> 0 then [32] else []) @ codes w @
        spec_word_layout ws (i + int (length w) + 1)"
      using nojump by simp
    show ?thesis
      unfolding eq using ih esc len by (auto simp: spec_word_count_Cons)
  qed
qed

section \<open>The claims\<close>

subsection \<open>The special-symbol table\<close>

text \<open>
  C1, as amended. The encoder returns, for the 22 special symbols in the order of the
  table (yen, right arrow, left arrow, degree, alpha, a-umlaut, n-tilde, o-umlaut, beta,
  epsilon, mu, sigma, rho, square root, cent, theta, infinity, Omega, Sigma, pi, division,
  black square), the bytes 0x5C, 0x7E, 0x7F, 0xDF, 0xE0, 0xE1, 0xEE, 0xEF, 0xE2, 0xE3, 0xE4,
  0xE5, 0xE6, 0xE8, 0xEC, 0xF2, 0xF3, 0xF4, 0xF6, 0xF7, 0xFD, 0xFF: n-tilde and o-umlaut
  are sent as 0xEE and 0xEF, the other seven letters of their run as 0xE0 to 0xE6.
\<close>

theorem special_chars_bytes:
  "map get_char_code
     [0xA5, 0x2192, 0x2190, 0xB0, 0x3B1, 0xE4, 0xF1, 0xF6, 0x3B2, 0x190, 0x3BC, 0x3C3, 0x3C1,
      0x221A, 0xA2, 0x3B8, 0x221E, 0x3A9, 0x3A3, 0x3C0, 0xF7, 0x25A0]
   = map Inr
     [0x5C, 0x7E, 0x7F, 0xDF, 0xE0, 0xE1, 0xEE, 0xEF, 0xE2, 0xE3, 0xE4, 0xE5, 0xE6,
      0xE8, 0xEC, 0xF2, 0xF3, 0xF4, 0xF6, 0xF7, 0xFD, 0xFF]"
  by (simp add: get_char_code_def special_chars_def)

text \<open>
  C1 as stated fails at n-tilde (U+00F1): the encoder returns 0xEE, which is not among the
  bytes of the published table (the run is said to map onto 0xE0 to 0xE6).
\<close>

theorem special_chars_published_counterexample:
  "get_char_code 0xF1 = Inr 0xEE \<and> 0xEE \<notin> set spec_published_bytes"
  by (simp add: get_char_code_def special_chars_def spec_published_bytes_def)

subsection \<open>Loading a custom character\<close>

text \<open>
  C2 at the input that separates the code from the claim: slot 0 and a bitmap of eight
  rows whose first row is 31 (all five dots set). The claim has this load succeed; the code
  tests \<open>i < 0x1F\<close> and raises the bitmap error with nothing written.
\<close>

theorem load_custom_character_row_31:
  "load_custom_character 0 [31, 0, 0, 0, 0, 0, 0, 0] s = (Inl BitmapInvalid, s)"
  by (simp add: load_custom_character_def)

theorem load_custom_character_row_31_witness:
  "load_custom_character 0 [31, 0, 0, 0, 0, 0, 0, 0] (init 10) = (Inl BitmapInvalid, init 10)"
  using load_custom_character_row_31 [of "init 10"] by simp

subsection \<open>Cursor addressing\<close>

text \<open>
  C5. \<open>set_cursor_pos\<close> raises the bounds error and writes nothing unless the line is
  1 or 2 and the column is between 1 and 16; for a pair in range it sends 0xFE, 0x45 and
  the address \<open>(line - 1) * 0x40 + (column - 1)\<close>; two pairs in range that send the same
  bytes are the same pair; and for every column in range the address of line 2 is the
  address of line 1 plus 0x40.
\<close>

theorem set_cursor_pos_address:
  "(\<not> (1 \<le> line \<and> line \<le> 2 \<and> 1 \<le> column \<and> column \<le> 16) \<longrightarrow>
      set_cursor_pos line column s = (Inl CursorOffScreen, s)) \<and>
   (1 \<le> line \<and> line \<le> 2 \<and> 1 \<le> column \<and> column \<le> 16 \<longrightarrow>
      set_cursor_pos line column s =
        (Inr (), sends [0xFE, 0x45, (line - 1) * 0x40 + (column - 1)] s)) \<and>
   (1 \<le> line \<and> line \<le> 2 \<and> 1 \<le> column \<and> column \<le> 16 \<and>
    1 \<le> line' \<and> line' \<le> 2 \<and> 1 \<le> column' \<and> column' \<le> 16 \<and>
    set_cursor_pos line column s = set_cursor_pos line' column' s \<longrightarrow>
      line = line' \<and> column = column') \<and>
   (1 \<le> c \<and> c \<le> 16 \<longrightarrow>
      (\<exists>pos. set_cursor_pos 1 c s = (Inr (), sends [0xFE, 0x45, pos] s) \<and>
             set_cursor_pos 2 c s = (Inr (), sends [0xFE, 0x45, pos + 0x40] s)))"
proof (intro conjI impI)
  assume "\<not> (1 \<le> line \<and> line \<le> 2 \<and> 1 \<le> column \<and> column \<le> 16)"
  then show "set_cursor_pos line column s = (Inl CursorOffScreen, s)"
    by (intro set_cursor_pos_off) auto
next
  assume "1 \<le> line \<and> line \<le> 2 \<and> 1 \<le> column \<and> column \<le> 16"
  then show "set_cursor_pos line column s =
      (Inr (), sends [0xFE, 0x45, (line - 1) * 0x40 + (column - 1)] s)"
    by (simp add: set_cursor_pos_ok)
next
  assume a: "1 \<le> line \<and> line \<le> 2 \<and> 1 \<le> column \<and> column \<le> 16 \<and>
    1 \<le> line' \<and> line' \<le> 2 \<and> 1 \<le> column' \<and> column' \<le> 16 \<and>
    set_cursor_pos line column s = set_cursor_pos line' column' s"
  then have "sends [0xFE, 0x45, (line - 1) * 0x40 + (column - 1)] s
           = sends [0xFE, 0x45, (line' - 1) * 0x40 + (column' - 1)] s"
    using set_cursor_pos_ok [of line column s] set_cursor_pos_ok [of line' column' s]
    by simp
  then have "bus_log (sends [0xFE, 0x45, (line - 1) * 0x40 + (column - 1)] s)
           = bus_log (sends [0xFE, 0x45, (line' - 1) * 0x40 + (column' - 1)] s)"
    by simp
  then have eq: "(line - 1) * 0x40 + (column - 1) = (line' - 1) * 0x40 + (column' - 1)"
    by (simp add: sends_def)
  from a have "line = 1 \<or> line = 2" "line' = 1 \<or> line' = 2" by auto
  with a eq show "line = line'" by auto
  with eq show "column = column'" by simp
next
  assume "1 \<le> c \<and> c \<le> 16"
  then have "set_cursor_pos 1 c s = (Inr (), sends [0xFE, 0x45, c - 1] s) \<and>
             set_cursor_pos 2 c s = (Inr (), sends [0xFE, 0x45, (c - 1) + 0x40] s)"
    by (simp add: set_cursor_pos_ok)
  then show "\<exists>pos. set_cursor_pos 1 c s = (Inr (), sends [0xFE, 0x45, pos] s) \<and>
             set_cursor_pos 2 c s = (Inr (), sends [0xFE, 0x45, pos + 0x40] s)"
    by blast
qed

theorem set_cursor_pos_address_witness:
  "\<not> (1 \<le> (3::int) \<and> (3::int) \<le> 2 \<and> 1 \<le> (1::int) \<and> (1::int) \<le> 16) \<and>
   set_cursor_pos 3 1 (init 10) = (Inl CursorOffScreen, init 10) \<and>
   (1 \<le> (2::int) \<and> (2::int) \<le> 2 \<and> 1 \<le> (16::int) \<and> (16::int) \<le> 16) \<and>
   set_cursor_pos 2 16 (init 10) =
     (Inr (), \<lparr>i2c_addr = 10, bus_log = [(10, 0xFE), (10, 0x45), (10, 0x4F)]\<rparr>) \<and>
   set_cursor_pos 1 16 (init 10) =
     (Inr (), \<lparr>i2c_addr = 10, bus_log = [(10, 0xFE), (10, 0x45), (10, 0x0F)]\<rparr>)"
  using set_cursor_pos_address [of 3 1 "init 10" 2 16 16]
    set_cursor_pos_address [of 2 16 "init 10" 1 16 16]
    set_cursor_pos_address [of 1 16 "init 10" 1 16 16]
  by (simp add: sends_def init_def)

subsection \<open>The domain of the encoder\<close>

text \<open>
  C8. \<open>get_char_code\<close> returns a byte exactly for the eight slot-select code points 0 to 7,
  the keys of the special-symbol table and the code points 32 to 125 other than 92; on
  the last set it returns the code point itself; for every other character it raises the
  unsupported-character error.
\<close>

theorem get_char_code_domain:
  "((\<exists>b. get_char_code c = Inr b) \<longleftrightarrow>
      c \<le> 7 \<or> c \<in> fst ` set special_chars \<or> (32 \<le> c \<and> c \<le> 125 \<and> c \<noteq> 92)) \<and>
   (32 \<le> c \<and> c \<le> 125 \<and> c \<noteq> 92 \<longrightarrow> get_char_code c = Inr (int c)) \<and>
   (\<not> (c \<le> 7 \<or> c \<in> fst ` set special_chars \<or> (32 \<le> c \<and> c \<le> 125 \<and> c \<noteq> 92)) \<longrightarrow>
      get_char_code c = Inl (UnsupportedCharacter c))"
proof (intro conjI impI)
  show "(\<exists>b. get_char_code c = Inr b) \<longleftrightarrow>
      c \<le> 7 \<or> c \<in> fst ` set special_chars \<or> (32 \<le> c \<and> c \<le> 125 \<and> c \<noteq> 92)"
  proof (cases "c \<in> fst ` set special_chars")
    case True
    then show ?thesis using get_char_code_special by simp
  next
    case False
    moreover from False have "\<not> c \<le> 7" using slot_special by blast
    ultimately show ?thesis by (simp add: get_char_code_other)
  qed
next
  assume a: "32 \<le> c \<and> c \<le> 125 \<and> c \<noteq> 92"
  then have "c \<notin> fst ` set special_chars" by (simp add: ascii_not_special)
  with a show "get_char_code c = Inr (int c)" by (simp add: get_char_code_other)
next
  assume "\<not> (c \<le> 7 \<or> c \<in> fst ` set special_chars \<or> (32 \<le> c \<and> c \<le> 125 \<and> c \<noteq> 92))"
  then show "get_char_code c = Inl (UnsupportedCharacter c)"
    by (simp add: get_char_code_other)
qed

theorem get_char_code_domain_witness:
  "(32 \<le> (65::nat) \<and> (65::nat) \<le> 125 \<and> (65::nat) \<noteq> 92) \<and> get_char_code 65 = Inr 65 \<and>
   \<not> (92 \<le> (7::nat) \<or> (92::nat) \<in> fst ` set special_chars \<or>
      (32 \<le> (92::nat) \<and> (92::nat) \<le> 125 \<and> (92::nat) \<noteq> 92)) \<and>
   get_char_code 92 = Inl (UnsupportedCharacter 92) \<and>
   get_char_code 126 = Inl (UnsupportedCharacter 126) \<and>
   get_char_code 31 = Inl (UnsupportedCharacter 31)"
  using get_char_code_domain [of 65] get_char_code_domain [of 92]
    get_char_code_domain [of 126] get_char_code_domain [of 31]
  by (simp add: special_keys)

subsection \<open>Command frames and repeated shifts\<close>

text \<open>
  C9. A command is put on the bus as 0xFE, the opcode and the parameters in order, one
  write per byte, all to the address of the device; the four shift operations with count
  \<open>n\<close> send \<open>n\<close> frames of their one-step opcode (0x49, 0x4A, 0x55, 0x56), and nothing at
  all when \<open>n \<le> 0\<close>.
\<close>

theorem framed_commands:
  "send_cmd cmd params s = sends (0xFE # cmd # params) s \<and>
   bus_log (sends bytes s) = bus_log s @ map (Pair (i2c_addr s)) bytes \<and>
   shift_cursor_left n s = sends (concat (replicate (nat n) [0xFE, 0x49])) s \<and>
   shift_cursor_right n s = sends (concat (replicate (nat n) [0xFE, 0x4A])) s \<and>
   shift_display_left n s = sends (concat (replicate (nat n) [0xFE, 0x55])) s \<and>
   shift_display_right n s = sends (concat (replicate (nat n) [0xFE, 0x56])) s \<and>
   (n \<le> 0 \<longrightarrow> shift_cursor_left n s = s \<and> shift_cursor_right n s = s \<and>
      shift_display_left n s = s \<and> shift_display_right n s = s)"
  by (simp add: shift_sends send_cmd_sends sends_Nil) (simp add: sends_def)

theorem framed_commands_witness:
  "(-1::int) \<le> 0 \<and> shift_cursor_left (-1) (init 10) = init 10 \<and>
   shift_display_right 0 (init 10) = init 10 \<and>
   shift_cursor_left 3 (init 10) =
     \<lparr>i2c_addr = 10,
      bus_log = [(10, 0xFE), (10, 0x49), (10, 0xFE), (10, 0x49), (10, 0xFE), (10, 0x49)]\<rparr> \<and>
   send_cmd 0x54 [2, 4, 0, 4, 8, 16, 17, 14, 0] (init 10) =
     \<lparr>i2c_addr = 10,
      bus_log = [(10, 0xFE), (10, 0x54), (10, 2), (10, 4), (10, 0), (10, 4), (10, 8), (10, 16),
                 (10, 17), (10, 14), (10, 0)]\<rparr>"
  using framed_commands [where cmd = "0x54" and params = "[2, 4, 0, 4, 8, 16, 17, 14, 0]"
      and s = "init 10" and n = "-1"]
    framed_commands [where s = "init 10" and n = 0]
    framed_commands [where s = "init 10" and n = 3]
  by (simp add: sends_def init_def numeral_3_eq_3)

subsection \<open>Word mode of \<open>disp_msg\<close>\<close>

text \<open>
  C4, as amended: for a message whose words the encoder accepts. With \<open>preserve_words\<close>
  set, \<open>disp_msg\<close> clears the screen, homes the cursor and
  walks the words of \<open>msg.split()\<close> with a running count that starts at 0: a word is
  preceded by one space when the count is neither 16 nor 0, and by the jump to line 2
  column 1 when count plus word length exceeds 16; the word is then sent whole and the
  count grows by the word length plus one; the result is whether the last count is at most
  33. A word sent without a jump ends within the 16 columns of line 1, with no command
  before it, so no word is split between the lines. The message "ab cd" ends with
  count 6 and returns true.
\<close>

theorem disp_msg_words_mode:
  "(list_all (list_all encodable) ws \<longrightarrow>
      disp_msg_words ws i s = (Inr (i + spec_word_count ws), sends (spec_word_layout ws i) s)) \<and>
   (list_all (list_all encodable) (py_split msg) \<longrightarrow>
      disp_msg msg True s =
        (Inr (spec_word_count (py_split msg) \<le> 33),
         sends ([0xFE, 0x51, 0xFE, 0x46] @ spec_word_layout (py_split msg) 0) s)) \<and>
   spec_word_layout (ws @ [w]) 0 =
     spec_word_layout ws 0 @
     (if spec_word_count ws \<noteq> 16 \<and> spec_word_count ws \<noteq> 0 then [32] else []) @
     (if spec_word_count ws + int (length w) > 16 then [0xFE, 0x45, 0x40] else []) @ codes w \<and>
   (ws \<noteq> [] \<and> list_all (list_all encodable) ws \<and> spec_word_count ws \<le> 17 \<longrightarrow>
      0xFE \<notin> set (spec_word_layout ws 0) \<and> length (spec_word_layout ws 0) \<le> 16)"
proof (intro conjI impI)
  assume "list_all (list_all encodable) ws"
  then show "disp_msg_words ws i s = (Inr (i + spec_word_count ws), sends (spec_word_layout ws i) s)"
    by (rule disp_msg_words_layout)
next
  assume "list_all (list_all encodable) (py_split msg)"
  then show "disp_msg msg True s =
        (Inr (spec_word_count (py_split msg) \<le> 33),
         sends ([0xFE, 0x51, 0xFE, 0x46] @ spec_word_layout (py_split msg) 0) s)"
    by (rule disp_msg_words_mode_aux)
next
  show "spec_word_layout (ws @ [w]) 0 =
     spec_word_layout ws 0 @
     (if spec_word_count ws \<noteq> 16 \<and> spec_word_count ws \<noteq> 0 then [32] else []) @
     (if spec_word_count ws + int (length w) > 16 then [0xFE, 0x45, 0x40] else []) @ codes w"
    by (simp add: spec_word_layout_append)
next
  assume a: "ws \<noteq> [] \<and> list_all (list_all encodable) ws \<and> spec_word_count ws \<le> 17"
  then have "0xFE \<notin> set (spec_word_layout ws 0) \<and>
     int (length (spec_word_layout ws 0)) \<le> spec_word_count ws - (if (0::int) = 0 then 1 else 0)"
    by (intro spec_word_layout_line1) simp_all
  with a show "0xFE \<notin> set (spec_word_layout ws 0)" and "length (spec_word_layout ws 0) \<le> 16"
    by simp_all
qed

theorem disp_msg_words_mode_witness:
  "list_all (list_all encodable) [[97, 98], [99, 100]] \<and>
   py_split [97, 98, 32, 99, 100] = [[97, 98], [99, 100]] \<and>
   disp_msg_words [[97, 98], [99, 100]] 0 (init 10) =
     (Inr 6, \<lparr>i2c_addr = 10, bus_log = [(10, 97), (10, 98), (10, 32), (10, 99), (10, 100)]\<rparr>) \<and>
   disp_msg [97, 98, 32, 99, 100] True (init 10) =
     (Inr True,
      \<lparr>i2c_addr = 10,
       bus_log = [(10, 0xFE), (10, 0x51), (10, 0xFE), (10, 0x46),
                  (10, 97), (10, 98), (10, 32), (10, 99), (10, 100)]\<rparr>) \<and>
   spec_word_count [[97, 98], [99, 100]] \<le> 17 \<and>
   length (spec_word_layout [[97, 98], [99, 100]] 0) \<le> 16"
proof -
  have sp: "py_split [97, 98, 32, 99, 100] = [[97, 98], [99, 100]]"
    by (simp add: isspace_def)
  have enc: "encodable 97" "encodable 98" "encodable 99" "encodable 100"
    by (simp_all add: encodable_def get_char_code_def special_chars_def)
  have cnt: "spec_word_count [[97, 98], [99, 100]] = 6"
    by (simp add: spec_word_count_def)
  have cd: "codes [97, 98] = [97, 98]" "codes [99, 100] = [99, 100]"
    by (simp_all add: codes_def get_char_code_def special_chars_def)
  show ?thesis
    using disp_msg_words_mode [where ws = "[[97, 98], [99, 100]]" and i = 0 and s = "init 10"
        and msg = "[97, 98, 32, 99, 100]"]
    by (simp add: sp enc cnt cd sends_def init_def
        del: py_split.simps disp_msg_words.simps)
qed

text \<open>
  C4 as stated (for any message) fails for the one-character message "~" (code point 126,
  which the encoder rejects): the screen is cleared and the cursor homed, then \<open>write\<close>
  raises inside the loop; no word is written and no result is returned.
\<close>

theorem disp_msg_words_unsupported_counterexample:
  "disp_msg [126] True (init 10) =
     (Inl (UnsupportedCharacter 126),
      \<lparr>i2c_addr = 10, bus_log = [(10, 0xFE), (10, 0x51), (10, 0xFE), (10, 0x46)]\<rparr>) \<and>
   fst (disp_msg [126] True (init 10)) \<noteq> Inr (spec_word_count (py_split [126]) \<le> 33)"
proof -
  have sp: "py_split [126] = [[126]]"
    by (simp add: isspace_def)
  have c: "get_char_code 126 = Inl (UnsupportedCharacter 126)"
    by (simp add: get_char_code_def special_chars_def)
  have "disp_msg [126] True (init 10) =
     (Inl (UnsupportedCharacter 126),
      \<lparr>i2c_addr = 10, bus_log = [(10, 0xFE), (10, 0x51), (10, 0xFE), (10, 0x46)]\<rparr>)"
    by (simp add: disp_msg_unfold sp c and_then_def ret_def sends_def init_def
        del: py_split.simps)
  then show ?thesis by simp
qed

subsection \<open>Character mode of \<open>disp_msg\<close>\<close>

text \<open>
  C7, as amended: for a message the encoder accepts. Without \<open>preserve_words\<close>,
  \<open>disp_msg\<close> clears the screen, homes the cursor and sends
  the characters of \<open>msg\<close> in order; when \<open>msg\<close> has more than 16 characters the jump to
  line 2 column 1 is sent once, between the character at index 15 and the one at index 16;
  the result is whether \<open>msg\<close> has at most 32 characters. 40 times "A" gives 16
  characters, the jump, 24 characters, and false.
\<close>

theorem disp_msg_chars_mode:
  assumes "list_all encodable msg"
  shows "disp_msg msg False s =
     (Inr (length msg \<le> 32),
      sends ([0xFE, 0x51, 0xFE, 0x46] @ codes (take 16 msg) @
             (if length msg > 16 then [0xFE, 0x45, 0x40] @ codes (drop 16 msg) else [])) s) \<and>
     length (codes (take 16 msg)) = min (length msg) 16 \<and>
     length (codes (drop 16 msg)) = length msg - 16 \<and>
     0xFE \<notin> set (codes msg)"
proof -
  from assms have "list_all encodable (take 16 msg)" "list_all encodable (drop 16 msg)"
    by (auto simp: list_all_iff dest: in_set_takeD in_set_dropD)
  then have "length (codes (take 16 msg)) = min (length msg) 16"
    "length (codes (drop 16 msg)) = length msg - 16"
    by (simp_all add: codes_length)
  with disp_msg_chars_mode_aux [OF assms] codes_not_escape show ?thesis
    by simp
qed

theorem disp_msg_chars_mode_witness:
  "list_all encodable (replicate 40 65) \<and>
   disp_msg (replicate 40 65) False (init 10) =
     (Inr False,
      \<lparr>i2c_addr = 10,
       bus_log = map (Pair 10)
         ([0xFE, 0x51, 0xFE, 0x46] @ replicate 16 65 @ [0xFE, 0x45, 0x40] @ replicate 24 65)\<rparr>)"
proof -
  have c: "get_char_code 65 = Inr 65"
    by (simp add: get_char_code_def special_chars_def)
  then have enc: "list_all encodable (replicate 40 65)"
    by (simp add: list_all_iff encodable_def)
  show ?thesis
    using disp_msg_chars_mode [OF enc, of "init 10"] enc
    by (simp add: codes_replicate [OF c] sends_def init_def)
qed

text \<open>
  C7 as stated (for any message) fails for the one-character message "~": the screen is
  cleared and the cursor homed, then \<open>write\<close> raises on the first character; nothing of
  the message is written and no result is returned.
\<close>

theorem disp_msg_chars_unsupported_counterexample:
  "disp_msg [126] False (init 10) =
     (Inl (UnsupportedCharacter 126),
      \<lparr>i2c_addr = 10, bus_log = [(10, 0xFE), (10, 0x51), (10, 0xFE), (10, 0x46)]\<rparr>) \<and>
   fst (disp_msg [126] False (init 10)) \<noteq> Inr (length [126::nat] \<le> 32)"
proof -
  have c: "get_char_code 126 = Inl (UnsupportedCharacter 126)"
    by (simp add: get_char_code_def special_chars_def)
  have r: "py_range 1 = [0]"
    by (simp add: py_range_def)
  have "disp_msg [126] False (init 10) =
     (Inl (UnsupportedCharacter 126),
      \<lparr>i2c_addr = 10, bus_log = [(10, 0xFE), (10, 0x51), (10, 0xFE), (10, 0x46)]\<rparr>)"
    by (simp add: disp_msg_unfold r c and_then_def ret_def sends_def init_def)
  then show ?thesis by simp
qed

subsection \<open>\<open>write_line\<close>\<close>

text \<open>
  C6, as amended. For a line in 1..2 and a message the encoder accepts, when \<open>centered\<close>
  is false or the message has at most 16 characters, \<open>write_line\<close> clears the line, sets
  the cursor to column 1, or to \<open>1 + (16 - len(msg)) // 2\<close> when centered, sends the whole
  message and returns whether it has at most 16 characters.
  \<open>write_line("HELLO", 1, centered=True)\<close> starts at column 6 (address 5) and returns
  true; 17 times "A" on line 2, not centered, is sent whole and returns false.
\<close>

theorem write_line_layout:
  "1 \<le> line \<and> line \<le> 2 \<and> list_all encodable msg \<and> (\<not> centered \<or> length msg \<le> 16) \<longrightarrow>
     write_line msg line centered s =
       (Inr (length msg \<le> 16),
        sends ([0xFE, 0x45, (line - 1) * 0x40] @ replicate 16 32 @ [0xFE, 0x45, (line - 1) * 0x40] @
               [0xFE, 0x45, (line - 1) * 0x40 +
                  ((if centered then 1 + (16 - int (length msg)) div 2 else 1) - 1)] @
               codes msg) s) \<and>
     length (codes msg) = length msg"
  using write_line_ok [of line msg centered s] codes_length [of msg]
  by blast

theorem write_line_layout_witness:
  "((1::int) \<le> 1 \<and> (1::int) \<le> 2 \<and> list_all encodable [72, 69, 76, 76, 79] \<and>
     length [72::nat, 69, 76, 76, 79] \<le> 16) \<and>
   write_line [72, 69, 76, 76, 79] 1 True (init 10) =
     (Inr True,
      \<lparr>i2c_addr = 10,
       bus_log = map (Pair 10)
         ([0xFE, 0x45, 0] @ replicate 16 32 @ [0xFE, 0x45, 0] @ [0xFE, 0x45, 5] @
          [72, 69, 76, 76, 79])\<rparr>) \<and>
   list_all encodable (replicate 17 65) \<and>
   write_line (replicate 17 65) 2 False (init 10) =
     (Inr False,
      \<lparr>i2c_addr = 10,
       bus_log = map (Pair 10)
         ([0xFE, 0x45, 0x40] @ replicate 16 32 @ [0xFE, 0x45, 0x40] @ [0xFE, 0x45, 0x40] @
          replicate 17 65)\<rparr>)"
proof -
  have enc: "encodable 72" "encodable 69" "encodable 76" "encodable 79"
    by (simp_all add: encodable_def get_char_code_def special_chars_def)
  have cd: "codes [72, 69, 76, 76, 79] = [72, 69, 76, 76, 79]"
    by (simp add: codes_def get_char_code_def special_chars_def)
  have c: "get_char_code 65 = Inr 65"
    by (simp add: get_char_code_def special_chars_def)
  then have enc': "list_all encodable (replicate 17 65)"
    by (simp add: list_all_iff encodable_def)
  have a: "write_line [72, 69, 76, 76, 79] 1 True (init 10) =
     (Inr True,
      \<lparr>i2c_addr = 10,
       bus_log = map (Pair 10)
         ([0xFE, 0x45, 0] @ replicate 16 32 @ [0xFE, 0x45, 0] @ [0xFE, 0x45, 5] @
          [72, 69, 76, 76, 79])\<rparr>)"
    using write_line_layout [where line = 1 and msg = "[72, 69, 76, 76, 79]" and centered = True
        and s = "init 10"]
    by (simp add: enc cd sends_def init_def)
  have b: "write_line (replicate 17 65) 2 False (init 10) =
     (Inr False,
      \<lparr>i2c_addr = 10,
       bus_log = map (Pair 10)
         ([0xFE, 0x45, 0x40] @ replicate 16 32 @ [0xFE, 0x45, 0x40] @ [0xFE, 0x45, 0x40] @
          replicate 17 65)\<rparr>)"
    using write_line_layout [where line = 2 and msg = "replicate 17 65" and centered = False
        and s = "init 10"] enc'
    by (simp add: codes_replicate [OF c] sends_def init_def)
  show ?thesis
    using a b enc' by (simp add: enc)
qed

text \<open>
  C6 as stated (for every text) fails for a centered message of 17 characters: the line is
  cleared, then the bounds error is raised; nothing of the message is sent and no result
  is returned.
\<close>

theorem write_line_centered_counterexample:
  "write_line (replicate 17 65) 1 True (init 10) =
     (Inl CursorOffScreen,
      \<lparr>i2c_addr = 10,
       bus_log = map (Pair 10) ([0xFE, 0x45, 0] @ replicate 16 32 @ [0xFE, 0x45, 0])\<rparr>) \<and>
   fst (write_line (replicate 17 65) 1 True (init 10)) \<noteq> Inr (length (replicate 17 (65::nat)) \<le> 16)"
  using write_line_centered_long [of 1 "replicate 17 65" "init 10"]
  by (simp add: sends_def init_def)

subsection \<open>Validation and the bus\<close>

text \<open>
  C3, as amended. The operations that check a parameter and send one command
  (\<open>set_cursor_pos\<close>, \<open>set_contrast\<close>, \<open>set_backlight_brightness\<close>,
  \<open>load_custom_character\<close>) and \<open>write_char_from_code\<close> raise before any write: on an
  error the bus is as it was. \<open>write\<close> raises at the first character the encoder rejects,
  after it has sent the codes of all the characters before it. \<open>write_line\<close> raises with
  nothing written when the line is not 1 or 2; with a line in range and a centered
  message of more than 16 characters it raises after the 22 writes that clear the line.
\<close>

theorem validation_before_write:
  "(fst (set_cursor_pos line column s) = Inl e \<longrightarrow> snd (set_cursor_pos line column s) = s) \<and>
   (fst (set_contrast contrast s) = Inl e \<longrightarrow> snd (set_contrast contrast s) = s) \<and>
   (fst (set_backlight_brightness brightness s) = Inl e \<longrightarrow>
      snd (set_backlight_brightness brightness s) = s) \<and>
   (fst (load_custom_character slot bitmap s) = Inl e \<longrightarrow>
      snd (load_custom_character slot bitmap s) = s) \<and>
   (fst (write_char_from_code code s) = Inl e \<longrightarrow> snd (write_char_from_code code s) = s) \<and>
   (list_all encodable pre \<and> \<not> encodable c \<longrightarrow>
      write_msg (pre @ c # post) s = (Inl (UnsupportedCharacter c), sends (codes pre) s) \<and>
      length (codes pre) = length pre) \<and>
   (line < 1 \<or> line > 2 \<longrightarrow> write_line msg line centered s = (Inl CursorOffScreen, s)) \<and>
   (1 \<le> line \<and> line \<le> 2 \<and> length msg > 16 \<longrightarrow>
      write_line msg line True s =
        (Inl CursorOffScreen,
         sends ([0xFE, 0x45, (line - 1) * 0x40] @ replicate 16 32 @ [0xFE, 0x45, (line - 1) * 0x40]) s))"
proof (intro conjI impI)
  show "fst (set_cursor_pos line column s) = Inl e \<Longrightarrow> snd (set_cursor_pos line column s) = s"
    by (auto simp: set_cursor_pos_def Let_def split: if_splits)
  show "fst (set_contrast contrast s) = Inl e \<Longrightarrow> snd (set_contrast contrast s) = s"
    by (auto simp: set_contrast_def split: if_splits)
  show "fst (set_backlight_brightness brightness s) = Inl e \<Longrightarrow>
      snd (set_backlight_brightness brightness s) = s"
    by (auto simp: set_backlight_brightness_def split: if_splits)
  show "fst (load_custom_character slot bitmap s) = Inl e \<Longrightarrow>
      snd (load_custom_character slot bitmap s) = s"
    by (auto simp: load_custom_character_accepts split: if_splits)
  show "fst (write_char_from_code code s) = Inl e \<Longrightarrow> snd (write_char_from_code code s) = s"
    by (auto simp: write_char_from_code_def split: if_splits)
  show "list_all encodable pre \<and> \<not> encodable c \<Longrightarrow>
      write_msg (pre @ c # post) s = (Inl (UnsupportedCharacter c), sends (codes pre) s)"
    by (simp add: write_msg_unsupported)
  show "list_all encodable pre \<and> \<not> encodable c \<Longrightarrow> length (codes pre) = length pre"
    by (simp add: codes_length)
  show "line < 1 \<or> line > 2 \<Longrightarrow> write_line msg line centered s = (Inl CursorOffScreen, s)"
    by (rule write_line_bad_line)
  show "1 \<le> line \<and> line \<le> 2 \<and> length msg > 16 \<Longrightarrow>
      write_line msg line True s =
        (Inl CursorOffScreen,
         sends ([0xFE, 0x45, (line - 1) * 0x40] @ replicate 16 32 @ [0xFE, 0x45, (line - 1) * 0x40]) s)"
    by (simp add: write_line_centered_long)
qed

theorem validation_before_write_witness:
  "fst (set_cursor_pos 1 17 (init 10)) = Inl CursorOffScreen \<and>
   snd (set_cursor_pos 1 17 (init 10)) = init 10 \<and>
   fst (set_contrast 51 (init 10)) = Inl ContrastOutOfRange \<and>
   snd (set_contrast 51 (init 10)) = init 10 \<and>
   fst (set_backlight_brightness 0 (init 10)) = Inl BrightnessOutOfRange \<and>
   snd (set_backlight_brightness 0 (init 10)) = init 10 \<and>
   fst (load_custom_character 8 [0, 0, 0, 0, 0, 0, 0, 0] (init 10)) = Inl SlotOutOfRange \<and>
   snd (load_custom_character 8 [0, 0, 0, 0, 0, 0, 0, 0] (init 10)) = init 10 \<and>
   fst (load_custom_character 0 [0, 32, 0, 0, 0, 0, 0, 0, 0] (init 10)) = Inl BitmapInvalid \<and>
   snd (load_custom_character 0 [0, 32, 0, 0, 0, 0, 0, 0, 0] (init 10)) = init 10 \<and>
   fst (write_char_from_code 256 (init 10)) = Inl CodeOutOfRange \<and>
   snd (write_char_from_code 256 (init 10)) = init 10 \<and>
   (list_all encodable [97, 98] \<and> \<not> encodable 92) \<and>
   write_msg [97, 98, 92, 99] (init 10) =
     (Inl (UnsupportedCharacter 92), \<lparr>i2c_addr = 10, bus_log = [(10, 97), (10, 98)]\<rparr>) \<and>
   write_line [65] 3 True (init 10) = (Inl CursorOffScreen, init 10) \<and>
   length (replicate 17 (65::nat)) > 16 \<and>
   write_line (replicate 17 65) 1 True (init 10) =
     (Inl CursorOffScreen,
      \<lparr>i2c_addr = 10,
       bus_log = map (Pair 10) ([0xFE, 0x45, 0] @ replicate 16 32 @ [0xFE, 0x45, 0])\<rparr>)"
proof -
  have f: "fst (set_cursor_pos 1 17 (init 10)) = Inl CursorOffScreen"
    "fst (set_contrast 51 (init 10)) = Inl ContrastOutOfRange"
    "fst (set_backlight_brightness 0 (init 10)) = Inl BrightnessOutOfRange"
    "fst (load_custom_character 8 [0, 0, 0, 0, 0, 0, 0, 0] (init 10)) = Inl SlotOutOfRange"
    "fst (load_custom_character 0 [0, 32, 0, 0, 0, 0, 0, 0, 0] (init 10)) = Inl BitmapInvalid"
    "fst (write_char_from_code 256 (init 10)) = Inl CodeOutOfRange"
    by (simp_all add: set_cursor_pos_def set_contrast_def set_backlight_brightness_def
        load_custom_character_def write_char_from_code_def)
  have enc: "encodable 97" "encodable 98" "\<not> encodable 92"
    by (simp_all add: encodable_def get_char_code_def special_chars_def)
  have cd: "codes [97, 98] = [97, 98]"
    by (simp add: codes_def get_char_code_def special_chars_def)
  note T = validation_before_write [where s = "init 10"]
  have "snd (set_cursor_pos 1 17 (init 10)) = init 10"
    using T [where line = 1 and column = 17 and e = CursorOffScreen] f(1) by blast
  moreover have "snd (set_contrast 51 (init 10)) = init 10"
    using T [where contrast = 51 and e = ContrastOutOfRange] f(2) by blast
  moreover have "snd (set_backlight_brightness 0 (init 10)) = init 10"
    using T [where brightness = 0 and e = BrightnessOutOfRange] f(3) by blast
  moreover have "snd (load_custom_character 8 [0, 0, 0, 0, 0, 0, 0, 0] (init 10)) = init 10"
    using T [where slot = 8 and bitmap = "[0, 0, 0, 0, 0, 0, 0, 0]" and e = SlotOutOfRange] f(4)
    by blast
  moreover have "snd (load_custom_character 0 [0, 32, 0, 0, 0, 0, 0, 0, 0] (init 10)) = init 10"
    using T [where slot = 0 and bitmap = "[0, 32, 0, 0, 0, 0, 0, 0, 0]" and e = BitmapInvalid] f(5)
    by blast
  moreover have "snd (write_char_from_code 256 (init 10)) = init 10"
    using T [where code = 256 and e = CodeOutOfRange] f(6) by blast
  moreover have "write_msg [97, 98, 92, 99] (init 10) =
     (Inl (UnsupportedCharacter 92), \<lparr>i2c_addr = 10, bus_log = [(10, 97), (10, 98)]\<rparr>)"
    using T [where pre = "[97, 98]" and c = 92 and post = "[99]"] enc
    by (simp add: cd sends_def init_def del: write_msg.simps)
  moreover have "write_line [65] 3 True (init 10) = (Inl CursorOffScreen, init 10)"
    using T [where line = 3 and msg = "[65]" and centered = True] by simp
  moreover have "write_line (replicate 17 65) 1 True (init 10) =
     (Inl CursorOffScreen,
      \<lparr>i2c_addr = 10,
       bus_log = map (Pair 10) ([0xFE, 0x45, 0] @ replicate 16 32 @ [0xFE, 0x45, 0])\<rparr>)"
    using T [where line = 1 and msg = "replicate 17 65"]
    by (simp add: sends_def init_def)
  ultimately show ?thesis
    using f enc by simp
qed

text \<open>
  C3 as stated fails for \<open>write\<close> of "a" followed by a backslash, which has sent the code
  of "a" when it raises,
  and for \<open>write_line\<close> with 17 characters, line 1, centered, which has made the 22 writes
  of \<open>clear_line\<close> when it raises.
\<close>

theorem validation_before_write_counterexample:
  "write_msg [97, 92] (init 10) =
     (Inl (UnsupportedCharacter 92), \<lparr>i2c_addr = 10, bus_log = [(10, 97)]\<rparr>) \<and>
   bus_log (snd (write_msg [97, 92] (init 10))) \<noteq> bus_log (init 10) \<and>
   write_line (replicate 17 65) 1 True (init 10) =
     (Inl CursorOffScreen,
      \<lparr>i2c_addr = 10,
       bus_log = map (Pair 10) ([0xFE, 0x45, 0] @ replicate 16 32 @ [0xFE, 0x45, 0])\<rparr>) \<and>
   length (bus_log (snd (write_line (replicate 17 65) 1 True (init 10)))) = 22"
proof -
  have "write_msg [97, 92] (init 10) =
     (Inl (UnsupportedCharacter 92), \<lparr>i2c_addr = 10, bus_log = [(10, 97)]\<rparr>)"
    by (simp add: get_char_code_def special_chars_def write_byte_def init_def)
  moreover have "write_line (replicate 17 65) 1 True (init 10) =
     (Inl CursorOffScreen,
      \<lparr>i2c_addr = 10,
       bus_log = map (Pair 10) ([0xFE, 0x45, 0] @ replicate 16 32 @ [0xFE, 0x45, 0])\<rparr>)"
    using write_line_centered_long [of 1 "replicate 17 65" "init 10"]
    by (simp add: sends_def init_def)
  ultimately show ?thesis
    by (simp add: init_def)
qed

subsection \<open>Whitespace in word mode\<close>

text \<open>
  C10. In word mode \<open>disp_msg\<close> depends on the message only through \<open>msg.split()\<close>: two
  messages with the same words put the same bytes on the bus and return the same result.
  The words are the non-whitespace characters of the message, in order, and no word is
  empty; leading whitespace is dropped, and a run of whitespace after a word separates it
  from the rest whatever its length (or ends the message). For words the encoder accepts,
  what is sent after the two opening commands is the word layout of the split message, in
  which the only spaces are the separators.
\<close>

theorem disp_msg_whitespace:
  "(py_split m1 = py_split m2 \<longrightarrow> disp_msg m1 True s = disp_msg m2 True s) \<and>
   concat (py_split m) = filter (\<lambda>c. \<not> isspace c) m \<and>
   [] \<notin> set (py_split m) \<and>
   (list_all isspace sp \<longrightarrow> py_split (sp @ m) = py_split m) \<and>
   (w \<noteq> [] \<and> list_all (\<lambda>c. \<not> isspace c) w \<and> list_all isspace sp \<and> (sp \<noteq> [] \<or> m = []) \<longrightarrow>
      py_split (w @ sp @ m) = w # py_split m) \<and>
   (list_all (list_all encodable) (py_split m) \<longrightarrow>
      snd (disp_msg m True s) =
        sends ([0xFE, 0x51, 0xFE, 0x46] @ spec_word_layout (py_split m) 0) s)"
proof (intro conjI impI)
  show "py_split m1 = py_split m2 \<Longrightarrow> disp_msg m1 True s = disp_msg m2 True s"
    by (simp add: disp_msg_unfold)
  show "concat (py_split m) = filter (\<lambda>c. \<not> isspace c) m"
    by (rule concat_py_split)
  show "[] \<notin> set (py_split m)"
    by (rule py_split_nonempty)
  show "list_all isspace sp \<Longrightarrow> py_split (sp @ m) = py_split m"
    by (rule py_split_leading)
  show "w \<noteq> [] \<and> list_all (\<lambda>c. \<not> isspace c) w \<and> list_all isspace sp \<and> (sp \<noteq> [] \<or> m = []) \<Longrightarrow>
      py_split (w @ sp @ m) = w # py_split m"
    by (simp add: py_split_word)
  show "list_all (list_all encodable) (py_split m) \<Longrightarrow>
      snd (disp_msg m True s) =
        sends ([0xFE, 0x51, 0xFE, 0x46] @ spec_word_layout (py_split m) 0) s"
    by (simp add: disp_msg_words_mode_aux)
qed

theorem disp_msg_whitespace_witness:
  "py_split [97, 32, 32, 98] = [[97], [98]] \<and>
   py_split [32, 97, 32, 98, 32] = [[97], [98]] \<and>
   py_split [97, 10, 98] = [[97], [98]] \<and>
   disp_msg [97, 32, 32, 98] True (init 10) = disp_msg [32, 97, 32, 98, 32] True (init 10) \<and>
   disp_msg [97, 32, 32, 98] True (init 10) = disp_msg [97, 10, 98] True (init 10) \<and>
   list_all (list_all encodable) (py_split [97, 10, 98]) \<and>
   snd (disp_msg [97, 10, 98] True (init 10)) =
     \<lparr>i2c_addr = 10,
      bus_log = [(10, 0xFE), (10, 0x51), (10, 0xFE), (10, 0x46), (10, 97), (10, 32), (10, 98)]\<rparr>"
proof -
  have sp: "py_split [97, 32, 32, 98] = [[97], [98]]"
    "py_split [32, 97, 32, 98, 32] = [[97], [98]]"
    "py_split [97, 10, 98] = [[97], [98]]"
    by (simp_all add: isspace_def)
  have enc: "encodable 97" "encodable 98"
    by (simp_all add: encodable_def get_char_code_def special_chars_def)
  have cd: "codes [97] = [97]" "codes [98] = [98]"
    by (simp_all add: codes_def get_char_code_def special_chars_def)
  note T = disp_msg_whitespace [where s = "init 10"]
  have a: "disp_msg [97, 32, 32, 98] True (init 10) = disp_msg [32, 97, 32, 98, 32] True (init 10)"
    using T [where ?m1.0 = "[97, 32, 32, 98]" and ?m2.0 = "[32, 97, 32, 98, 32]"] sp by simp
  have b: "disp_msg [97, 32, 32, 98] True (init 10) = disp_msg [97, 10, 98] True (init 10)"
    using T [where ?m1.0 = "[97, 32, 32, 98]" and ?m2.0 = "[97, 10, 98]"] sp by simp
  have c: "snd (disp_msg [97, 10, 98] True (init 10)) =
     \<lparr>i2c_addr = 10,
      bus_log = [(10, 0xFE), (10, 0x51), (10, 0xFE), (10, 0x46), (10, 97), (10, 32), (10, 98)]\<rparr>"
    using T [where m = "[97, 10, 98]"]
    by (simp add: sp enc cd sends_def init_def del: py_split.simps)
  show ?thesis
    using a b c by (simp add: sp enc del: py_split.simps)
qed

end
